theory Spec2Isabelle
  imports Complex_Main "HOL-Library.AList"
begin

section \<open>Caption segmentation: \<open>VideoCreation.add_captions_to_video\<close> (src/main.py)\<close>

text \<open>
  Times are Python numbers: the initial \<open>start_time = 0\<close> is an int, word times and
  \<open>clip.duration\<close> are floats. The segmentation only copies and compares them, so
  they are modelled as real numbers (every finite float is one). Strings are lists of
  characters, each \<open>char\<close> standing for one code point below 256.
\<close>

type_synonym seconds = real

text \<open>One entry of \<open>timestamps\<close>:
  \<^verbatim>\<open>{'timestamp': (word['start'], word['end']), 'text': word['text']}\<close>.\<close>

record word_ts =
  w_start :: seconds
  w_end :: seconds
  w_text :: string

text \<open>One element of \<open>clips\<close>: the interval given to \<open>clip.subclip\<close> and the text
  given to \<open>add_text_to_video\<close>. Rendering and compositing belong to the video library.\<close>

record segment =
  seg_start :: seconds
  seg_end :: seconds
  seg_text :: string

text \<open>The local variables of the \<open>for\<close> loop.\<close>

record loop_state =
  clips :: "segment list"
  start_time :: seconds
  caption_text :: string
  word_count :: nat

definition max_caption_words :: nat where
  "max_caption_words = 8"

text \<open>\<open>str.isspace\<close> on the code points below 256: TAB, LF, VT, FF, CR, FS, GS, RS, US,
  SPACE, NEL (0x85) and NBSP (0xA0).\<close>

definition is_space :: "char \<Rightarrow> bool" where
  "is_space c = (of_char c \<in> {9, 10, 11, 12, 13, 28, 29, 30, 31, 32, 133, 160 :: nat})"

text \<open>\<open>str.strip()\<close> without argument: whitespace removed at both ends.\<close>

definition strip :: "string \<Rightarrow> string" where
  "strip s = rev (dropWhile is_space (rev (dropWhile is_space s)))"

text \<open>\<open>word.endswith(('.', '!', '?'))\<close>.\<close>

definition ends_sentence :: "string \<Rightarrow> bool" where
  "ends_sentence word = (word \<noteq> [] \<and> last word \<in> {CHR ''.'', CHR ''!'', CHR ''?''})"

definition initial_state :: loop_state where
  "initial_state = \<lparr>clips = [], start_time = 0, caption_text = [], word_count = 0\<rparr>"

text \<open>The body of \<open>for pos, timestamp in enumerate(timestamps)\<close>; \<open>start\<close> is unpacked
  and never read.\<close>

definition loop_body :: "word_ts \<Rightarrow> loop_state \<Rightarrow> loop_state" where
  "loop_body timestamp st =
     (let end = w_end timestamp;
          word = w_text timestamp;
          caption_text' = caption_text st @ '' '' @ word;
          word_count' = word_count st + 1
      in if word_count' \<ge> max_caption_words \<or> ends_sentence word
         then \<lparr>clips = clips st @
                  [\<lparr>seg_start = start_time st, seg_end = end, seg_text = strip caption_text'\<rparr>],
               start_time = end, caption_text = [], word_count = 0\<rparr>
         else st\<lparr>caption_text := caption_text', word_count := word_count'\<rparr>)"

fun caption_loop :: "word_ts list \<Rightarrow> loop_state \<Rightarrow> loop_state" where
  "caption_loop [] st = st"
| "caption_loop (timestamp # rest) st = caption_loop rest (loop_body timestamp st)"

text \<open>Lines 268 to 297: the loop, then \<open>if caption_text:\<close> appends the remaining text
  as a last clip that runs to \<open>clip.duration\<close>.\<close>

definition caption_clips :: "word_ts list \<Rightarrow> seconds \<Rightarrow> segment list" where
  "caption_clips timestamps duration =
     (let st = caption_loop timestamps initial_state
      in if caption_text st \<noteq> []
         then clips st @
                [\<lparr>seg_start = start_time st, seg_end = duration,
                  seg_text = strip (caption_text st)\<rparr>]
         else clips st)"

text \<open>The whole function: with no timestamps the clip is returned as it came, otherwise
  the captioned clips are concatenated.\<close>

datatype video = Original | Concatenated "segment list"

definition add_captions_to_video :: "word_ts list \<Rightarrow> seconds \<Rightarrow> video" where
  "add_captions_to_video timestamps duration =
     (if length timestamps = 0 then Original
      else Concatenated (caption_clips timestamps duration))"

subsection \<open>Notions used to state the segmentation properties\<close>

text \<open>\<open>back_to_back a segs b\<close>: the segments tile the time from \<open>a\<close> to \<open>b\<close>, each one
  starting where the one before ended.\<close>

fun back_to_back :: "seconds \<Rightarrow> segment list \<Rightarrow> seconds \<Rightarrow> bool" where
  "back_to_back a [] b = (a = b)"
| "back_to_back a (s # rest) b = (seg_start s = a \<and> back_to_back (seg_end s) rest b)"

text \<open>What \<open>caption_text\<close> holds after \<^verbatim>\<open>caption_text += f" {word}"\<close> has run for the
  words of \<open>g\<close>, starting from the empty string.\<close>

definition acc_text :: "word_ts list \<Rightarrow> string" where
  "acc_text g = concat (map (\<lambda>w. '' '' @ w_text w) g)"

text \<open>\<open>seg\<close> carries the words \<open>g\<close>: at least one and at most \<open>max_caption_words\<close> of
  them, none but the last ending a sentence, its text their stripped accumulation.\<close>

definition segment_of_words :: "word_ts list \<Rightarrow> segment \<Rightarrow> bool" where
  "segment_of_words g seg =
     (g \<noteq> [] \<and> length g \<le> max_caption_words \<and>
      (\<forall>w \<in> set (butlast g). \<not> ends_sentence (w_text w)) \<and>
      seg_text seg = strip (acc_text g))"

text \<open>\<open>seg\<close> was closed by the last word of \<open>g\<close>: that word filled the segment or ended
  a sentence, and the segment ends at that word's end.\<close>

definition closed_at_last_word :: "word_ts list \<Rightarrow> segment \<Rightarrow> bool" where
  "closed_at_last_word g seg =
     ((length g = max_caption_words \<or> ends_sentence (w_text (last g))) \<and>
      seg_end seg = w_end (last g))"

text \<open>The words accumulated so far have not closed a segment.\<close>

definition open_group :: "word_ts list \<Rightarrow> bool" where
  "open_group g = (length g < max_caption_words \<and> (\<forall>w \<in> set g. \<not> ends_sentence (w_text w)))"

text \<open>The loop invariant: the words read so far are those of the closed segments, in
  order, followed by the words still in the accumulator.\<close>

definition grouped :: "word_ts list \<Rightarrow> loop_state \<Rightarrow> word_ts list list \<Rightarrow> word_ts list \<Rightarrow> bool" where
  "grouped ws st gs cur =
     (concat gs @ cur = ws \<and>
      list_all2 (\<lambda>g seg. segment_of_words g seg \<and> closed_at_last_word g seg) gs (clips st) \<and>
      open_group cur \<and> caption_text st = acc_text cur \<and> word_count st = length cur)"

text \<open>\<^verbatim>\<open>" ".join(xs)\<close>.\<close>

fun join_sp :: "string list \<Rightarrow> string" where
  "join_sp [] = []"
| "join_sp [x] = x"
| "join_sp (x # y # rest) = x @ '' '' @ join_sp (y # rest)"

text \<open>\<open>s.split()\<close> without argument: the maximal runs of non-whitespace characters.
  \<open>cur\<close> is the run being read.\<close>

fun split_acc :: "string \<Rightarrow> string \<Rightarrow> string list" where
  "split_acc cur [] = (if cur = [] then [] else [cur])"
| "split_acc cur (c # cs) =
     (if is_space c then (if cur = [] then split_acc [] cs else cur # split_acc [] cs)
      else split_acc (cur @ [c]) cs)"

definition py_split :: "string \<Rightarrow> string list" where
  "py_split s = split_acc [] s"

text \<open>Single-space normalisation, \<^verbatim>\<open>" ".join(s.split())\<close>: whitespace runs become one
  space, none is left at either end.\<close>

definition normalize_spaces :: "string \<Rightarrow> string" where
  "normalize_spaces s = join_sp (py_split s)"

text \<open>A word as a transcription engine gives it: not empty, no whitespace inside.\<close>

definition clean_word :: "string \<Rightarrow> bool" where
  "clean_word x = (x \<noteq> [] \<and> (\<forall>c \<in> set x. \<not> is_space c))"

subsection \<open>Example transcripts\<close>

definition hi_there_friend :: "word_ts list" where
  "hi_there_friend =
     [\<lparr>w_start = 0, w_end = 1, w_text = ''Hi''\<rparr>,
      \<lparr>w_start = 1, w_end = 2, w_text = ''there''\<rparr>,
      \<lparr>w_start = 2, w_end = 3, w_text = ''friend.''\<rparr>]"

definition hi_there_friend_shifted :: "word_ts list" where
  "hi_there_friend_shifted =
     [\<lparr>w_start = 1/2, w_end = 1, w_text = ''Hi''\<rparr>,
      \<lparr>w_start = 3/2, w_end = 2, w_text = ''there''\<rparr>,
      \<lparr>w_start = 5/2, w_end = 3, w_text = ''friend.''\<rparr>]"

text \<open>Two words with two seconds of silence between them.\<close>

definition hi_pause_there :: "word_ts list" where
  "hi_pause_there =
     [\<lparr>w_start = 0, w_end = 1, w_text = ''Hi.''\<rparr>,
      \<lparr>w_start = 3, w_end = 4, w_text = ''there''\<rparr>]"

text \<open>Nine words without punctuation, ending at 1, 2, ..., 9 seconds.\<close>

definition nine_words :: "word_ts list" where
  "nine_words = map (\<lambda>n. \<lparr>w_start = of_nat n, w_end = of_nat n + 1, w_text = ''la''\<rparr>) [0..<9]"

definition friend_word :: word_ts where
  "friend_word = \<lparr>w_start = 2, w_end = 3, w_text = ''friend.''\<rparr>"

section \<open>Subtitle export: \<open>SRTGenerator\<close> (src/srtgen.py)\<close>


text \<open>Python's \<open>x // y\<close> and \<open>x % y\<close> on floats, for a positive \<open>y\<close>, and \<open>int(x)\<close>, which
  truncates towards zero. The arithmetic is exact: the rounding of a float result is not
  modelled.\<close>

definition floordiv :: "real \<Rightarrow> real \<Rightarrow> real" where
  "floordiv x y = of_int \<lfloor>x / y\<rfloor>"












subsection \<open>The subtitle format as the specification words it\<close>






section \<open>The job: \<open>start_process\<close> (src/main.py)\<close>

subsection \<open>The end time of the written clip\<close>

datatype py_error = ZeroDivisionError

text \<open>\<open>round(x, 2)\<close>: to the nearest hundredth, a tie to the even one.\<close>

definition round_half_even :: "real \<Rightarrow> int" where
  "round_half_even y =
     (let f = \<lfloor>y\<rfloor>; r = y - of_int f
      in if r < 1/2 then f else if 1/2 < r then f + 1 else if even f then f else f + 1)"

definition py_round2 :: "real \<Rightarrow> real" where
  "py_round2 x = of_int (round_half_even (x * 100)) / 100"

text \<open>\<^verbatim>\<open>end_time = round(((output_video.duration * 100 // output_video.fps) * output_video.fps / 100), 2)\<close>;
  \<open>//\<close> raises on a zero divisor.\<close>

definition end_time :: "real \<Rightarrow> real \<Rightarrow> py_error + real" where
  "end_time duration fps =
     (if fps = 0 then Inl ZeroDivisionError
      else Inr (py_round2 (floordiv (duration * 100) fps * fps / 100)))"

text \<open>The duration rounded down to a whole number of frames, as the specification has it:
  the largest multiple of \<open>1 / fps\<close> that does not exceed \<open>d\<close>.\<close>

definition whole_frames :: "real \<Rightarrow> real \<Rightarrow> real" where
  "whole_frames d fps = of_int \<lfloor>d * fps\<rfloor> / fps"

subsection \<open>Writing the output, with retries\<close>

text \<open>What one call of \<open>output_video.write_videofile\<close> does: it returns, raises an
  \<open>IOError\<close>, or raises something else. The file system decides; the model takes the
  outcome of the attempt at each \<open>pos\<close> as a parameter.\<close>

datatype write_result = Written | RaisesIOError | RaisesOther

text \<open>The lines logged by the loop: \<open>logging.warning\<close> with \<open>pos + 1\<close>, and the
  \<open>logging.error\<close> of the \<open>else\<close> branch.\<close>

datatype log_line = Warning nat | Error

record save_state =
  attempts :: nat
  logged :: "log_line list"
  slept :: nat

datatype loop_exit = Broke | Exhausted | Propagated

text \<open>\<open>for pos in range(5): try: ... break / except IOError: ... / else: ...\<close>. The
  \<open>else\<close> branch of the \<open>for\<close> runs when the range is used up without a \<open>break\<close>.\<close>

fun write_loop :: "(nat \<Rightarrow> write_result) \<Rightarrow> nat list \<Rightarrow> save_state \<Rightarrow> loop_exit \<times> save_state" where
  "write_loop write_videofile [] s = (Exhausted, s\<lparr>logged := logged s @ [Error]\<rparr>)"
| "write_loop write_videofile (pos # rest) s =
     (case write_videofile pos of
        Written \<Rightarrow> (Broke, s\<lparr>attempts := attempts s + 1\<rparr>)
      | RaisesIOError \<Rightarrow>
          write_loop write_videofile rest
            (s\<lparr>attempts := attempts s + 1, logged := logged s @ [Warning (pos + 1)],
               slept := slept s + 1\<rparr>)
      | RaisesOther \<Rightarrow> (Propagated, s\<lparr>attempts := attempts s + 1\<rparr>))"

definition start_state :: save_state where
  "start_state = \<lparr>attempts = 0, logged = [], slept = 0\<rparr>"

text \<open>How the job ends. \<open>status_flag\<close> is the value of
  \<open>processes_status_dict[process_identifier]\<close>: set to \<open>False\<close> at line 377 and to \<open>True\<close>
  at line 421, which an exception that leaves \<open>start_process\<close> never reaches.\<close>

record job_end =
  status_flag :: bool
  raised :: bool
  trace :: save_state

definition save_output :: "(nat \<Rightarrow> write_result) \<Rightarrow> job_end" where
  "save_output write_videofile =
     (case write_loop write_videofile [0..<5] start_state of
        (Propagated, s) \<Rightarrow> \<lparr>status_flag = False, raised = True, trace = s\<rparr>
      | (_, s) \<Rightarrow> \<lparr>status_flag = True, raised = False, trace = s\<rparr>)"

text \<open>The number of warnings in a log.\<close>

definition warnings :: "log_line list \<Rightarrow> nat" where
  "warnings ls = length (filter (\<lambda>l. l \<noteq> Error) ls)"

text \<open>File systems: one that fails the first \<open>k\<close> attempts and then answers \<open>r\<close>, one
  that always fails, one that never does.\<close>

definition fails_then :: "nat \<Rightarrow> write_result \<Rightarrow> nat \<Rightarrow> write_result" where
  "fails_then k r pos = (if pos < k then RaisesIOError else r)"

definition always_fails :: "nat \<Rightarrow> write_result" where
  "always_fails pos = RaisesIOError"

definition writes_at_once :: "nat \<Rightarrow> write_result" where
  "writes_at_once pos = Written"

section \<open>The scheduler: the main loop of src/main.py\<close>

text \<open>
  The main process and the workers run in parallel and meet in two shared objects, the
  queue and \<open>processes_status_dict\<close>. The model is a transition system: one event is
  either the next step of the main loop or one write of a worker to its own entry of the
  status dictionary, and a run is any sequence of events, so every interleaving is
  covered. Dictionaries are association lists in insertion order, as Python keeps them.
  \<open>MAX_NUMBER_OF_PROCESSES\<close> comes from the configuration and is a parameter, a natural
  number.
\<close>

type_synonym pid = nat

text \<open>Where the main loop stands: at the \<open>while\<close> test, at the \<open>if\<close> that may start a
  process, before the \<open>for\<close> loop takes the items of the status dictionary, inside that
  loop with the items still to visit (\<open>items()\<close> of a manager's dictionary is a copy),
  after the loop, or stopped by a \<open>KeyError\<close>.\<close>

datatype pc = LoopTest | SpawnTest | ReapStart | ReapLoop "(pid \<times> bool) list" | Exited
  | RaisedKeyError

text \<open>\<open>processes\<close> maps a pid to its process, which is known by the file it works on.
  \<open>crashed\<close> lists the workers that died before their last line; the operating system
  knows them, the loop never reads them. \<open>joined\<close> records, for the proofs only, the files
  whose process has been joined and removed.\<close>

record sched =
  video_queue :: "string list"
  processes :: "(pid \<times> string) list"
  processes_status_dict :: "(pid \<times> bool) list"
  num_active_processes :: int
  pc :: pc
  crashed :: "pid list"
  joined :: "string list"

text \<open>\<open>Sched new_pid\<close> is the next step of the main loop, \<open>new_pid\<close> being the pid the
  operating system hands out should the step start a process. \<open>WorkerBegin\<close> is line 377
  of a worker, \<open>WorkerEnd\<close> its line 421, \<open>WorkerCrash\<close> its death anywhere before.\<close>

datatype event = Sched pid | WorkerBegin pid | WorkerEnd pid | WorkerCrash pid

definition initial :: "string list \<Rightarrow> sched" where
  "initial input_video_names =
     \<lparr>video_queue = input_video_names, processes = [], processes_status_dict = [],
      num_active_processes = 0, pc = LoopTest, crashed = [], joined = []\<rparr>"

text \<open>The body of \<open>if complete:\<close>. \<open>processes[pid]\<close> and \<open>del processes_status_dict[pid]\<close>
  raise a \<open>KeyError\<close> on a missing key. \<open>join\<close> returns, since a worker that has set its
  flag has nothing left to run.\<close>

definition reap :: "pid \<Rightarrow> (pid \<times> bool) list \<Rightarrow> sched \<Rightarrow> sched" where
  "reap p rest s =
     (case map_of (processes s) p of
        None \<Rightarrow> s\<lparr>pc := RaisedKeyError\<rparr>
      | Some file_name \<Rightarrow>
          if p \<notin> fst ` set (processes_status_dict s)
          then s\<lparr>processes := AList.delete p (processes s), pc := RaisedKeyError\<rparr>
          else s\<lparr>processes := AList.delete p (processes s),
                 processes_status_dict := AList.delete p (processes_status_dict s),
                 num_active_processes := num_active_processes s - 1,
                 joined := joined s @ [file_name],
                 pc := ReapLoop rest\<rparr>)"

text \<open>The body of the first \<open>if\<close>: \<open>get\<close>, \<open>Process\<close>, \<open>start\<close>, the new entry of
  \<open>processes\<close>, the counter. A live child's pid is never handed out again.\<close>

definition spawn :: "pid \<Rightarrow> sched \<Rightarrow> sched option" where
  "spawn new_pid s =
     (if new_pid \<in> fst ` set (processes s) then None
      else Some (s\<lparr>video_queue := tl (video_queue s),
                   processes := AList.update new_pid (hd (video_queue s)) (processes s),
                   num_active_processes := num_active_processes s + 1,
                   pc := ReapStart\<rparr>))"

definition sched_step :: "nat \<Rightarrow> pid \<Rightarrow> sched \<Rightarrow> sched option" where
  "sched_step max_processes new_pid s =
     (case pc s of
        LoopTest \<Rightarrow>
          Some (s\<lparr>pc := (if length (video_queue s) \<noteq> 0 \<or> length (processes s) \<noteq> 0
                          then SpawnTest else Exited)\<rparr>)
      | SpawnTest \<Rightarrow>
          if num_active_processes s < int max_processes \<and> length (video_queue s) > 0
          then spawn new_pid s
          else Some (s\<lparr>pc := ReapStart\<rparr>)
      | ReapStart \<Rightarrow> Some (s\<lparr>pc := ReapLoop (processes_status_dict s)\<rparr>)
      | ReapLoop [] \<Rightarrow> Some (s\<lparr>pc := LoopTest\<rparr>)
      | ReapLoop ((p, completed) # rest) \<Rightarrow>
          Some (if completed then reap p rest s else s\<lparr>pc := ReapLoop rest\<rparr>)
      | Exited \<Rightarrow> None
      | RaisedKeyError \<Rightarrow> None)"

text \<open>A worker that has been started, not removed, and has not died.\<close>

definition running :: "pid \<Rightarrow> sched \<Rightarrow> bool" where
  "running p s = (p \<in> fst ` set (processes s) \<and> p \<notin> set (crashed s))"

text \<open>One event; \<open>None\<close> when it cannot happen in this state.\<close>

definition fire :: "nat \<Rightarrow> event \<Rightarrow> sched \<Rightarrow> sched option" where
  "fire max_processes e s =
     (case e of
        Sched new_pid \<Rightarrow> sched_step max_processes new_pid s
      | WorkerBegin p \<Rightarrow>
          if running p s \<and> map_of (processes_status_dict s) p = None
          then Some (s\<lparr>processes_status_dict := AList.update p False (processes_status_dict s)\<rparr>)
          else None
      | WorkerEnd p \<Rightarrow>
          if running p s \<and> map_of (processes_status_dict s) p = Some False
          then Some (s\<lparr>processes_status_dict := AList.update p True (processes_status_dict s)\<rparr>)
          else None
      | WorkerCrash p \<Rightarrow>
          if running p s \<and> map_of (processes_status_dict s) p \<noteq> Some True
          then Some (s\<lparr>crashed := p # crashed s\<rparr>)
          else None)"

fun run :: "nat \<Rightarrow> event list \<Rightarrow> sched \<Rightarrow> sched option" where
  "run max_processes [] s = Some s"
| "run max_processes (e # es) s =
     (case fire max_processes e s of None \<Rightarrow> None | Some s' \<Rightarrow> run max_processes es s')"

subsection \<open>The invariant of the scheduler\<close>

text \<open>Inside the \<open>for\<close> loop the items still to visit have distinct pids, and one seen
  complete is still complete in the dictionary; the loop is left only with nothing queued
  and nothing tracked; no \<open>KeyError\<close> is raised.\<close>

definition pc_ok :: "sched \<Rightarrow> bool" where
  "pc_ok s =
     (case pc s of
        ReapLoop items \<Rightarrow>
          distinct (map fst items) \<and>
          (\<forall>(p, completed) \<in> set items.
             completed \<longrightarrow> map_of (processes_status_dict s) p = Some True)
      | Exited \<Rightarrow> video_queue s = [] \<and> processes s = []
      | RaisedKeyError \<Rightarrow> False
      | _ \<Rightarrow> True)"

text \<open>The counter is the number of tracked processes, which stays within the cap, and
  every file is queued, tracked or joined.\<close>

definition counts_ok :: "nat \<Rightarrow> string list \<Rightarrow> sched \<Rightarrow> bool" where
  "counts_ok max_processes names s =
     (num_active_processes s = int (length (processes s)) \<and>
      length (processes s) \<le> max_processes \<and>
      length (joined s) + length (processes s) + length (video_queue s) = length names)"

text \<open>Keys are unique, every status entry belongs to a tracked process, and a worker
  that died is tracked with a flag that is not \<open>True\<close>.\<close>

definition dicts_ok :: "sched \<Rightarrow> bool" where
  "dicts_ok s =
     (distinct (map fst (processes s)) \<and> distinct (map fst (processes_status_dict s)) \<and>
      fst ` set (processes_status_dict s) \<subseteq> fst ` set (processes s) \<and>
      set (crashed s) \<subseteq> fst ` set (processes s) \<and>
      (\<forall>p \<in> set (crashed s). map_of (processes_status_dict s) p \<noteq> Some True))"

definition sched_inv :: "nat \<Rightarrow> string list \<Rightarrow> sched \<Rightarrow> bool" where
  "sched_inv max_processes names s = (counts_ok max_processes names s \<and> dicts_ok s \<and> pc_ok s)"

subsection \<open>Example runs\<close>

text \<open>Two files, one slot: the second file waits for the first worker to be reaped.\<close>

definition good_run :: "event list" where
  "good_run = [Sched 7, Sched 7, WorkerBegin 7, Sched 8, Sched 8, Sched 8, Sched 8, Sched 8,
     WorkerEnd 7, Sched 8, Sched 8, Sched 8, Sched 8,
     Sched 9, WorkerBegin 9, WorkerEnd 9, Sched 3, Sched 3, Sched 3, Sched 3]"

definition all_done :: sched where
  "all_done = \<lparr>video_queue = [], processes = [], processes_status_dict = [],
     num_active_processes = 0, pc = Exited, crashed = [], joined = [''a.mp4'', ''b.mp4'']\<rparr>"

text \<open>The state before the last step of that run.\<close>

definition drained :: sched where
  "drained = \<lparr>video_queue = [], processes = [], processes_status_dict = [],
     num_active_processes = 0, pc = LoopTest, crashed = [], joined = [''a.mp4'', ''b.mp4'']\<rparr>"

text \<open>One file whose worker dies after line 377, then one pass of the main loop.\<close>

definition crash_run :: "event list" where
  "crash_run = [Sched 7, Sched 7, WorkerBegin 7, WorkerCrash 7, Sched 8, Sched 8, Sched 8]"

definition loop_pass :: "event list" where
  "loop_pass = [Sched 8, Sched 8, Sched 8, Sched 8, Sched 8]"

definition stuck :: sched where
  "stuck = \<lparr>video_queue = [], processes = [(7, ''a.mp4'')],
     processes_status_dict = [(7, False)], num_active_processes = 1, pc = LoopTest,
     crashed = [7], joined = []\<rparr>"

section \<open>Properties of the caption segmentation\<close>

lemma caption_loop_snoc: "caption_loop (ws @ [w]) st = loop_body w (caption_loop ws st)"
  by (induction ws arbitrary: st) simp_all

lemma back_to_back_snoc:
  "back_to_back a (segs @ [s]) c = (back_to_back a segs (seg_start s) \<and> seg_end s = c)"
  by (induction segs arbitrary: a) auto

lemma back_to_back_nth:
  "back_to_back a segs b \<Longrightarrow> Suc i < length segs \<Longrightarrow> seg_end (segs ! i) = seg_start (segs ! Suc i)"
proof (induction segs arbitrary: a i)
  case Nil
  then show ?case by simp
next
  case (Cons s rest)
  show ?case
  proof (cases i)
    case 0
    with Cons.prems show ?thesis by (cases rest) auto
  next
    case (Suc j)
    with Cons show ?thesis by auto
  qed
qed

lemma back_to_back_hd: "back_to_back a segs b \<Longrightarrow> segs \<noteq> [] \<Longrightarrow> seg_start (hd segs) = a"
  by (cases segs) auto

lemma back_to_back_last: "back_to_back a segs b \<Longrightarrow> segs \<noteq> [] \<Longrightarrow> seg_end (last segs) = b"
  by (induction segs arbitrary: a) (auto split: if_splits)

lemma loop_body_back_to_back:
  "back_to_back 0 (clips st) (start_time st) \<Longrightarrow>
   back_to_back 0 (clips (loop_body w st)) (start_time (loop_body w st))"
  by (simp add: loop_body_def Let_def back_to_back_snoc)

lemma caption_loop_back_to_back:
  "back_to_back 0 (clips st) (start_time st) \<Longrightarrow>
   back_to_back 0 (clips (caption_loop ws st)) (start_time (caption_loop ws st))"
  by (induction ws arbitrary: st) (simp_all add: loop_body_back_to_back)

lemma caption_clips_back_to_back:
  "back_to_back 0 (caption_clips ws d)
     (if caption_text (caption_loop ws initial_state) \<noteq> [] then d
      else start_time (caption_loop ws initial_state))"
proof -
  have "back_to_back 0 (clips initial_state) (start_time initial_state)"
    by (simp add: initial_state_def)
  from caption_loop_back_to_back [OF this, of ws] show ?thesis
    by (simp add: caption_clips_def Let_def back_to_back_snoc)
qed

text \<open>a closing word leaves an empty accumulator, any other a non-empty one\<close>
lemma loop_body_caption_text:
  "caption_text (loop_body w st) = [] \<longleftrightarrow>
     (word_count st + 1 \<ge> max_caption_words \<or> ends_sentence (w_text w))"
  by (simp add: loop_body_def Let_def)

lemma loop_body_closed:
  "caption_text (loop_body w st) = [] \<Longrightarrow>
     clips (loop_body w st) \<noteq> [] \<and> start_time (loop_body w st) = w_end w"
  by (auto simp add: loop_body_def Let_def split: if_splits)

lemma loop_body_clips_grow: "clips st \<noteq> [] \<Longrightarrow> clips (loop_body w st) \<noteq> []"
  by (simp add: loop_body_def Let_def)

lemma caption_clips_nonempty: "ws \<noteq> [] \<Longrightarrow> caption_clips ws d \<noteq> []"
proof (induction ws rule: rev_induct)
  case Nil
  then show ?case by simp
next
  case (snoc w ws)
  show ?case
    using loop_body_closed [of w "caption_loop ws initial_state"]
    by (auto simp add: caption_clips_def Let_def caption_loop_snoc)
qed

lemma caption_loop_last_closed:
  "ws \<noteq> [] \<Longrightarrow> caption_text (caption_loop ws st) = [] \<Longrightarrow>
     start_time (caption_loop ws st) = w_end (last ws)"
  by (induction ws rule: rev_induct) (simp_all add: caption_loop_snoc loop_body_closed)

lemma caption_loop_sentence_end:
  "ws \<noteq> [] \<Longrightarrow> ends_sentence (w_text (last ws)) \<Longrightarrow> caption_text (caption_loop ws st) = []"
  by (induction ws rule: rev_induct) (simp_all add: caption_loop_snoc loop_body_caption_text)

lemma hi_there_friend_clips:
  "caption_clips hi_there_friend 5 =
     [\<lparr>seg_start = 0, seg_end = 3, seg_text = ''Hi there friend.''\<rparr>]"
  by (simp add: hi_there_friend_def caption_clips_def initial_state_def loop_body_def Let_def
      max_caption_words_def ends_sentence_def strip_def is_space_def)

lemma loop_body_ignores_start:
  "w_end w = w_end w' \<Longrightarrow> w_text w = w_text w' \<Longrightarrow> loop_body w st = loop_body w' st"
  by (simp add: loop_body_def)

lemma caption_loop_ignores_start:
  "length ws = length ws' \<Longrightarrow> map w_end ws = map w_end ws' \<Longrightarrow> map w_text ws = map w_text ws'
   \<Longrightarrow> caption_loop ws st = caption_loop ws' st"
proof (induction ws ws' arbitrary: st rule: list_induct2)
  case Nil
  then show ?case by simp
next
  case (Cons w ws w' ws')
  then show ?case by (simp add: loop_body_ignores_start [of w w'])
qed

lemma acc_text_snoc: "acc_text (g @ [w]) = acc_text g @ '' '' @ w_text w"
  by (simp add: acc_text_def)

lemma grouped_initial: "grouped [] initial_state [] []"
  by (simp add: grouped_def initial_state_def open_group_def acc_text_def max_caption_words_def)

lemma grouped_step:
  assumes "grouped ws st gs cur"
  shows "\<exists>gs' cur'. grouped (ws @ [w]) (loop_body w st) gs' cur'"
proof (cases "word_count st + 1 \<ge> max_caption_words \<or> ends_sentence (w_text w)")
  case True
  let ?g = "cur @ [w]"
  let ?seg = "\<lparr>seg_start = start_time st, seg_end = w_end w,
               seg_text = strip (caption_text st @ '' '' @ w_text w)\<rparr>"
  from assms have cur: "open_group cur" "caption_text st = acc_text cur" "word_count st = length cur"
    and ws: "concat gs @ cur = ws"
    and l2: "list_all2 (\<lambda>g seg. segment_of_words g seg \<and> closed_at_last_word g seg) gs (clips st)"
    by (simp_all add: grouped_def)
  have "segment_of_words ?g ?seg"
    using cur by (simp add: segment_of_words_def open_group_def acc_text_snoc)
  moreover have "closed_at_last_word ?g ?seg"
    using cur True by (auto simp add: closed_at_last_word_def open_group_def)
  ultimately have "list_all2 (\<lambda>g seg. segment_of_words g seg \<and> closed_at_last_word g seg)
      (gs @ [?g]) (clips st @ [?seg])"
    using l2 by (simp add: list_all2_appendI)
  moreover have "loop_body w st =
      \<lparr>clips = clips st @ [?seg], start_time = w_end w, caption_text = [], word_count = 0\<rparr>"
    using True by (simp add: loop_body_def Let_def)
  ultimately have "grouped (ws @ [w]) (loop_body w st) (gs @ [?g]) []"
    using ws by (simp add: grouped_def open_group_def acc_text_def max_caption_words_def)
  then show ?thesis by blast
next
  case False
  from assms have cur: "open_group cur" "caption_text st = acc_text cur" "word_count st = length cur"
    and ws: "concat gs @ cur = ws"
    and l2: "list_all2 (\<lambda>g seg. segment_of_words g seg \<and> closed_at_last_word g seg) gs (clips st)"
    by (simp_all add: grouped_def)
  have "loop_body w st =
      st\<lparr>caption_text := caption_text st @ '' '' @ w_text w, word_count := word_count st + 1\<rparr>"
    using False by (simp add: loop_body_def Let_def)
  moreover have "open_group (cur @ [w])"
    using cur False by (auto simp add: open_group_def)
  ultimately have "grouped (ws @ [w]) (loop_body w st) gs (cur @ [w])"
    using ws l2 cur by (simp add: grouped_def acc_text_snoc)
  then show ?thesis by blast
qed

lemma grouped_loop: "\<exists>gs cur. grouped ws (caption_loop ws initial_state) gs cur"
proof (induction ws rule: rev_induct)
  case Nil
  show ?case using grouped_initial by auto
next
  case (snoc w ws)
  then obtain gs cur where "grouped ws (caption_loop ws initial_state) gs cur" by blast
  from grouped_step [OF this, of w] show ?case by (simp add: caption_loop_snoc)
qed

lemma acc_text_empty: "acc_text g = [] \<longleftrightarrow> g = []"
  by (cases g) (simp_all add: acc_text_def)

lemma caption_clips_grouping:
  "\<exists>gs. concat gs = ws \<and> list_all2 segment_of_words gs (caption_clips ws d) \<and>
        list_all2 closed_at_last_word (butlast gs) (butlast (caption_clips ws d))"
proof -
  obtain gs cur where g: "grouped ws (caption_loop ws initial_state) gs cur"
    using grouped_loop by blast
  let ?st = "caption_loop ws initial_state"
  from g have ws: "concat gs @ cur = ws"
    and both: "list_all2 (\<lambda>g seg. segment_of_words g seg \<and> closed_at_last_word g seg) gs (clips ?st)"
    and cur: "open_group cur" "caption_text ?st = acc_text cur"
    by (simp_all add: grouped_def)
  from both have l1: "list_all2 segment_of_words gs (clips ?st)"
    and l2: "list_all2 closed_at_last_word gs (clips ?st)"
    by (simp_all add: list_all2_conv_all_nth)
  show ?thesis
  proof (cases "cur = []")
    case True
    then have "caption_clips ws d = clips ?st"
      using cur by (simp add: caption_clips_def acc_text_def Let_def)
    moreover have "list_all2 closed_at_last_word (butlast gs) (butlast (clips ?st))"
      using l2 by (auto simp add: list_all2_conv_all_nth nth_butlast)
    ultimately show ?thesis using ws True l1 by auto
  next
    case False
    let ?seg = "\<lparr>seg_start = start_time ?st, seg_end = d, seg_text = strip (caption_text ?st)\<rparr>"
    from False have cc: "caption_clips ws d = clips ?st @ [?seg]"
      using cur by (simp add: caption_clips_def acc_text_empty Let_def)
    have "segment_of_words cur ?seg"
      using False cur by (simp add: segment_of_words_def open_group_def in_set_butlastD)
    then have "list_all2 segment_of_words (gs @ [cur]) (clips ?st @ [?seg])"
      using l1 by (simp add: list_all2_appendI)
    then show ?thesis using ws cc l2 by (intro exI [of _ "gs @ [cur]"]) simp
  qed
qed

lemma strip_leading_space: "strip ('' '' @ s) = strip s"
  by (simp add: strip_def is_space_def)

lemma single_sentence_word:
  "ends_sentence (w_text w) \<Longrightarrow>
     caption_clips [w] d = [\<lparr>seg_start = 0, seg_end = w_end w, seg_text = strip (w_text w)\<rparr>]"
  using strip_leading_space [of "w_text w"]
  by (simp add: caption_clips_def loop_body_def initial_state_def Let_def)

lemma loop_body_closes_iff:
  "clips (loop_body w st) \<noteq> clips st \<longleftrightarrow>
     (word_count st + 1 \<ge> max_caption_words \<or> ends_sentence (w_text w))"
  by (simp add: loop_body_def Let_def)

lemma split_acc_at_space:
  "is_space c \<Longrightarrow> split_acc cur (s @ c # t) = split_acc cur s @ split_acc [] t"
  by (induction s arbitrary: cur) simp_all

lemma split_acc_all_space: "\<forall>c \<in> set t. is_space c \<Longrightarrow> split_acc [] t = []"
  by (induction t) simp_all

lemma split_acc_trailing: "\<forall>c \<in> set t. is_space c \<Longrightarrow> split_acc cur (s @ t) = split_acc cur s"
  by (cases t) (simp_all add: split_acc_at_space split_acc_all_space)

lemma py_split_dropWhile: "py_split (dropWhile is_space s) = py_split s"
  by (induction s) (simp_all add: py_split_def)

lemma py_split_strip: "py_split (strip s) = py_split s"
proof -
  let ?t = "dropWhile is_space s"
  have "?t = rev (dropWhile is_space (rev ?t)) @ rev (takeWhile is_space (rev ?t))"
    by (metis rev_append rev_rev_ident takeWhile_dropWhile_id)
  moreover have "\<forall>c \<in> set (rev (takeWhile is_space (rev ?t))). is_space c"
    by (auto dest: set_takeWhileD)
  ultimately have "split_acc [] ?t = split_acc [] (rev (dropWhile is_space (rev ?t)))"
    using split_acc_trailing by metis
  then show ?thesis
    using py_split_dropWhile [of s] by (simp add: strip_def py_split_def)
qed

lemma space_is_space: "is_space (CHR '' '')"
  by (simp add: is_space_def)

lemma py_split_join_sp: "py_split (join_sp xs) = concat (map py_split xs)"
proof (induction xs rule: join_sp.induct)
  case 1
  show ?case by (simp add: py_split_def)
next
  case (2 x)
  show ?case by simp
next
  case (3 x y rest)
  have "py_split (x @ CHR '' '' # join_sp (y # rest)) = py_split x @ py_split (join_sp (y # rest))"
    unfolding py_split_def using space_is_space by (rule split_acc_at_space)
  with 3 show ?case by simp
qed

lemma py_split_acc_text:
  "py_split (s @ acc_text g) = py_split s @ concat (map (\<lambda>w. py_split (w_text w)) g)"
proof (induction g arbitrary: s)
  case Nil
  show ?case by (simp add: acc_text_def)
next
  case (Cons w g)
  have "acc_text (w # g) = CHR '' '' # (w_text w @ acc_text g)"
    by (simp add: acc_text_def)
  then have "py_split (s @ acc_text (w # g)) = py_split s @ py_split (w_text w @ acc_text g)"
    unfolding py_split_def using split_acc_at_space [OF space_is_space] by simp
  with Cons [of "w_text w"] show ?case by simp
qed

lemma segment_of_words_tokens:
  "segment_of_words g seg \<Longrightarrow> py_split (seg_text seg) = concat (map (\<lambda>w. py_split (w_text w)) g)"
  using py_split_acc_text [of "[]" g]
  by (simp add: segment_of_words_def py_split_strip) (simp add: py_split_def)

lemma grouping_tokens:
  "list_all2 segment_of_words gs segs \<Longrightarrow>
     concat (map (\<lambda>seg. py_split (seg_text seg)) segs) =
     concat (map (\<lambda>w. py_split (w_text w)) (concat gs))"
  by (induction gs segs rule: list_all2_induct) (simp_all add: segment_of_words_tokens)

lemma caption_clips_tokens:
  "py_split (join_sp (map seg_text (caption_clips ws d))) =
     concat (map (\<lambda>w. py_split (w_text w)) ws)"
proof -
  obtain gs where "concat gs = ws" "list_all2 segment_of_words gs (caption_clips ws d)"
    using caption_clips_grouping by blast
  then show ?thesis
    using grouping_tokens [of gs "caption_clips ws d"] by (simp add: py_split_join_sp comp_def)
qed

lemma acc_text_join_sp: "g \<noteq> [] \<Longrightarrow> acc_text g = CHR '' '' # join_sp (map w_text g)"
proof (induction g)
  case Nil
  then show ?case by simp
next
  case (Cons w g)
  then show ?case by (cases g) (simp_all add: acc_text_def)
qed

lemma strip_id: "s \<noteq> [] \<Longrightarrow> \<not> is_space (hd s) \<Longrightarrow> \<not> is_space (last s) \<Longrightarrow> strip s = s"
proof -
  assume a: "s \<noteq> []" "\<not> is_space (hd s)" "\<not> is_space (last s)"
  then have "dropWhile is_space s = s"
    by (cases s) simp_all
  moreover have "dropWhile is_space (rev s) = rev s"
    using a by (cases "rev s") (simp_all add: last_rev [symmetric] hd_rev)
  ultimately show ?thesis by (simp add: strip_def)
qed

lemma join_sp_clean:
  "xs \<noteq> [] \<Longrightarrow> \<forall>x \<in> set xs. clean_word x \<Longrightarrow>
     join_sp xs \<noteq> [] \<and> \<not> is_space (hd (join_sp xs)) \<and> \<not> is_space (last (join_sp xs))"
proof (induction xs rule: join_sp.induct)
  case 1
  then show ?case by simp
next
  case (2 x)
  then show ?case by (simp add: clean_word_def)
next
  case (3 x y rest)
  then show ?case by (auto simp add: clean_word_def)
qed

lemma join_sp_append:
  "xs \<noteq> [] \<Longrightarrow> ys \<noteq> [] \<Longrightarrow> join_sp (xs @ ys) = join_sp xs @ CHR '' '' # join_sp ys"
proof (induction xs rule: join_sp.induct)
  case 1
  then show ?case by simp
next
  case (2 x)
  then show ?case by (cases ys) simp_all
next
  case (3 x y rest)
  then show ?case by simp
qed

lemma join_sp_concat:
  "[] \<notin> set gss \<Longrightarrow> join_sp (map join_sp gss) = join_sp (concat gss)"
proof (induction gss)
  case Nil
  show ?case by simp
next
  case (Cons g gss)
  show ?case
  proof (cases "gss = []")
    case True
    then show ?thesis by simp
  next
    case False
    then obtain h rest where gss: "gss = h # rest" by (cases gss) auto
    with Cons.prems have "concat gss \<noteq> []" "g \<noteq> []" by auto
    then have "join_sp (concat (g # gss)) = join_sp g @ CHR '' '' # join_sp (concat gss)"
      by (simp add: join_sp_append)
    with Cons gss show ?thesis by simp
  qed
qed

lemma segment_of_clean_words:
  assumes "segment_of_words g seg" and "\<forall>w \<in> set g. clean_word (w_text w)"
  shows "seg_text seg = join_sp (map w_text g)"
proof -
  from assms(1) have g: "g \<noteq> []" and t: "seg_text seg = strip (acc_text g)"
    by (simp_all add: segment_of_words_def)
  have "strip (acc_text g) = strip (join_sp (map w_text g))"
    using acc_text_join_sp [OF g] strip_leading_space [of "join_sp (map w_text g)"] by simp
  also have "\<dots> = join_sp (map w_text g)"
    using join_sp_clean [of "map w_text g"] g assms(2) by (simp add: strip_id)
  finally show ?thesis using t by simp
qed

lemma grouping_clean_texts:
  "list_all2 segment_of_words gs segs \<Longrightarrow> \<forall>w \<in> set (concat gs). clean_word (w_text w) \<Longrightarrow>
     map seg_text segs = map join_sp (map (map w_text) gs) \<and> [] \<notin> set (map (map w_text) gs)"
proof (induction gs segs rule: list_all2_induct)
  case Nil
  show ?case by simp
next
  case (Cons g gs seg segs)
  then have "seg_text seg = join_sp (map w_text g)" "g \<noteq> []"
    by (simp_all add: segment_of_clean_words) (simp add: segment_of_words_def)
  with Cons show ?case by auto
qed

lemma caption_clips_clean:
  assumes "\<forall>w \<in> set ws. clean_word (w_text w)"
  shows "join_sp (map seg_text (caption_clips ws d)) = join_sp (map w_text ws)"
proof -
  obtain gs where gs: "concat gs = ws" "list_all2 segment_of_words gs (caption_clips ws d)"
    using caption_clips_grouping by blast
  with assms have eq: "map seg_text (caption_clips ws d) = map join_sp (map (map w_text) gs)"
    and ne: "[] \<notin> set (map (map w_text) gs)"
    using grouping_clean_texts [of gs "caption_clips ws d"] by simp_all
  from eq have "join_sp (map seg_text (caption_clips ws d)) = join_sp (map join_sp (map (map w_text) gs))"
    by (rule arg_cong)
  also have "\<dots> = join_sp (concat (map (map w_text) gs))"
    using ne by (rule join_sp_concat)
  also have "\<dots> = join_sp (map w_text (concat gs))"
    by (simp add: map_concat)
  finally show ?thesis using gs(1) by simp
qed

subsection \<open>Contiguity of the emitted segments\<close>

text \<open>
  Claim C3. For every non-empty word-timestamp sequence the emitted segments are
  back-to-back: the first one starts at 0 and every segment ends where the next one
  starts, whatever silence lies between the words.
\<close>

theorem segments_contiguous:
  assumes "ws \<noteq> []"
  shows "caption_clips ws d \<noteq> [] \<and> seg_start (hd (caption_clips ws d)) = 0 \<and>
         (\<forall>i. Suc i < length (caption_clips ws d) \<longrightarrow>
            seg_end (caption_clips ws d ! i) = seg_start (caption_clips ws d ! Suc i))"
  using caption_clips_nonempty [OF assms, of d] caption_clips_back_to_back [of ws d]
  by (auto simp del: back_to_back.simps intro: back_to_back_hd back_to_back_nth)

lemma hi_pause_there_clips:
  "caption_clips hi_pause_there 5 =
     [\<lparr>seg_start = 0, seg_end = 1, seg_text = ''Hi.''\<rparr>,
      \<lparr>seg_start = 1, seg_end = 5, seg_text = ''there''\<rparr>]"
  by (simp add: hi_pause_there_def caption_clips_def initial_state_def loop_body_def Let_def
      max_caption_words_def ends_sentence_def strip_def is_space_def)

theorem segments_contiguous_witness:
  "hi_pause_there \<noteq> [] \<and> length (caption_clips hi_pause_there 5) = 2 \<and>
   seg_start (hd (caption_clips hi_pause_there 5)) = 0 \<and>
   seg_end (caption_clips hi_pause_there 5 ! 0) = seg_start (caption_clips hi_pause_there 5 ! Suc 0)"
proof -
  have ne: "hi_pause_there \<noteq> []"
    by (simp add: hi_pause_there_def)
  have len: "length (caption_clips hi_pause_there 5) = 2"
    by (simp add: hi_pause_there_clips)
  then have "Suc 0 < length (caption_clips hi_pause_there 5)"
    by simp
  with segments_contiguous [OF ne, of 5] ne len show ?thesis
    by blast
qed

subsection \<open>The end of the last segment\<close>

text \<open>
  Claim C1 as stated, at the three words Hi, there, friend. and a clip of 5 seconds: the
  last word ends a sentence, so it closes the segment at its own end, 3 seconds; nothing
  is left in the accumulator and no clip running to the duration is appended.
\<close>

theorem last_segment_end_counterexample:
  "seg_end (last (caption_clips hi_there_friend 5)) \<noteq> 5"
  by (simp add: hi_there_friend_clips)

text \<open>
  Claim C1, amended. For every non-empty word-timestamp sequence the last segment ends
  at the clip's duration when text is left in the accumulator after the last word, and
  at the last word's end when that word closed a segment, as a word ending a sentence
  always does.
\<close>

theorem last_segment_end:
  assumes "ws \<noteq> []"
  shows "seg_end (last (caption_clips ws d)) =
           (if caption_text (caption_loop ws initial_state) = [] then w_end (last ws) else d) \<and>
         (ends_sentence (w_text (last ws)) \<longrightarrow>
            seg_end (last (caption_clips ws d)) = w_end (last ws))"
proof -
  have ne: "caption_clips ws d \<noteq> []"
    using assms by (rule caption_clips_nonempty)
  have "seg_end (last (caption_clips ws d)) =
          (if caption_text (caption_loop ws initial_state) \<noteq> [] then d
           else start_time (caption_loop ws initial_state))"
    using caption_clips_back_to_back [of ws d] ne by (rule back_to_back_last)
  then have first: "seg_end (last (caption_clips ws d)) =
           (if caption_text (caption_loop ws initial_state) = [] then w_end (last ws) else d)"
    using assms by (simp add: caption_loop_last_closed)
  then show ?thesis
    using assms by (simp add: caption_loop_sentence_end)
qed

theorem last_segment_end_witness:
  "hi_there_friend \<noteq> [] \<and> ends_sentence (w_text (last hi_there_friend)) \<and>
   caption_text (caption_loop hi_there_friend initial_state) = [] \<and>
   seg_end (last (caption_clips hi_there_friend 5)) = 3 \<and>
   hi_pause_there \<noteq> [] \<and> caption_text (caption_loop hi_pause_there initial_state) \<noteq> [] \<and>
   seg_end (last (caption_clips hi_pause_there 5)) = 5"
proof -
  have ne: "hi_there_friend \<noteq> []"
    by (simp add: hi_there_friend_def)
  have es: "ends_sentence (w_text (last hi_there_friend))"
    by (simp add: hi_there_friend_def ends_sentence_def)
  have "seg_end (last (caption_clips hi_there_friend 5)) = w_end (last hi_there_friend)"
    using last_segment_end [OF ne, of 5] es by simp
  moreover have "caption_text (caption_loop hi_there_friend initial_state) = []"
    using ne es by (rule caption_loop_sentence_end)
  ultimately have closed: "hi_there_friend \<noteq> [] \<and>
      ends_sentence (w_text (last hi_there_friend)) \<and>
      caption_text (caption_loop hi_there_friend initial_state) = [] \<and>
      seg_end (last (caption_clips hi_there_friend 5)) = 3"
    using ne es by (simp add: hi_there_friend_def)
  have ne': "hi_pause_there \<noteq> []"
    by (simp add: hi_pause_there_def)
  have left: "caption_text (caption_loop hi_pause_there initial_state) \<noteq> []"
    by (simp add: hi_pause_there_def initial_state_def loop_body_def Let_def
        max_caption_words_def ends_sentence_def)
  then have "seg_end (last (caption_clips hi_pause_there 5)) = 5"
    using last_segment_end [OF ne', of 5] by simp
  with closed ne' left show ?thesis
    by blast
qed

subsection \<open>When a segment is closed\<close>

text \<open>
  Claim C4. A word closes the accumulating segment exactly when it brings the counter to
  \<open>max_caption_words\<close> or ends in one of . ! ? Hence the words split, in order, into one
  group per segment; every group has between one and \<open>max_caption_words\<close> words, only
  its last word may end a sentence, and every segment but the last was closed by its last
  word (the cap reached or a sentence ended) at that word's end. A single word that ends
  a sentence gives one segment of that one word.
\<close>

theorem segments_close_on_cap_or_sentence_end:
  "(clips (loop_body w st) \<noteq> clips st \<longleftrightarrow>
      (word_count st + 1 \<ge> max_caption_words \<or> ends_sentence (w_text w))) \<and>
   (\<exists>gs. concat gs = ws \<and> list_all2 segment_of_words gs (caption_clips ws d) \<and>
         list_all2 closed_at_last_word (butlast gs) (butlast (caption_clips ws d))) \<and>
   (ends_sentence (w_text w) \<longrightarrow>
      caption_clips [w] d = [\<lparr>seg_start = 0, seg_end = w_end w, seg_text = strip (w_text w)\<rparr>])"
  using loop_body_closes_iff [of w st] caption_clips_grouping [of ws d] single_sentence_word [of w d]
  by blast

lemma nine_words_clips:
  "caption_clips nine_words 10 =
     [\<lparr>seg_start = 0, seg_end = 8, seg_text = ''la la la la la la la la''\<rparr>,
      \<lparr>seg_start = 8, seg_end = 10, seg_text = ''la''\<rparr>]"
  by (simp add: nine_words_def upt_conv_Cons caption_clips_def initial_state_def loop_body_def
      Let_def max_caption_words_def ends_sentence_def strip_def is_space_def)

theorem segments_close_on_cap_or_sentence_end_witness:
  "ends_sentence (w_text friend_word) \<and>
   caption_clips [friend_word] 5 = [\<lparr>seg_start = 0, seg_end = 3, seg_text = ''friend.''\<rparr>] \<and>
   clips (loop_body friend_word initial_state) \<noteq> clips initial_state \<and>
   length (caption_clips nine_words 10) = 2 \<and>
   (\<exists>gs. concat gs = nine_words \<and> list_all2 segment_of_words gs (caption_clips nine_words 10) \<and>
         list_all2 closed_at_last_word (butlast gs) (butlast (caption_clips nine_words 10)))"
proof -
  have es: "ends_sentence (w_text friend_word)"
    by (simp add: friend_word_def ends_sentence_def)
  have st: "strip (w_text friend_word) = ''friend.''"
    by (simp add: friend_word_def strip_def is_space_def)
  have we: "w_end friend_word = 3"
    by (simp add: friend_word_def)
  show ?thesis
    using segments_close_on_cap_or_sentence_end [of friend_word initial_state nine_words 10]
      segments_close_on_cap_or_sentence_end [of friend_word initial_state nine_words 5]
      es st we
    by (simp add: nine_words_clips)
qed

subsection \<open>No word is lost\<close>

text \<open>
  Claim C7. The texts of the emitted segments, joined by single spaces, are the text of
  the word sequence up to single-space normalisation: both split into the same tokens in
  the same order, so no word is dropped, repeated or moved. When no word is empty or
  contains whitespace, the joined segment texts are the words joined by single spaces,
  character for character.
\<close>

theorem captions_keep_words:
  "py_split (join_sp (map seg_text (caption_clips ws d))) =
     concat (map (\<lambda>w. py_split (w_text w)) ws) \<and>
   normalize_spaces (join_sp (map seg_text (caption_clips ws d))) =
     normalize_spaces (join_sp (map w_text ws)) \<and>
   ((\<forall>w \<in> set ws. clean_word (w_text w)) \<longrightarrow>
      join_sp (map seg_text (caption_clips ws d)) = join_sp (map w_text ws))"
proof -
  have "py_split (join_sp (map w_text ws)) = concat (map (\<lambda>w. py_split (w_text w)) ws)"
    by (simp add: py_split_join_sp comp_def)
  then show ?thesis
    unfolding normalize_spaces_def
    using caption_clips_tokens [of ws d] caption_clips_clean [of ws d] by simp
qed

theorem captions_keep_words_witness:
  "list_all (\<lambda>w. clean_word (w_text w)) hi_pause_there \<and>
   join_sp (map seg_text (caption_clips hi_pause_there 5)) = ''Hi. there'' \<and>
   py_split (join_sp (map seg_text (caption_clips hi_pause_there 5))) = [''Hi.'', ''there'']"
proof -
  have clean: "\<forall>w \<in> set hi_pause_there. clean_word (w_text w)"
    by (simp add: hi_pause_there_def clean_word_def is_space_def)
  have "join_sp (map w_text hi_pause_there) = ''Hi. there''"
    by (simp add: hi_pause_there_def)
  moreover have "concat (map (\<lambda>w. py_split (w_text w)) hi_pause_there) = [''Hi.'', ''there'']"
    by (simp add: hi_pause_there_def py_split_def is_space_def)
  ultimately show ?thesis
    using captions_keep_words [of hi_pause_there 5] clean by (simp add: list_all_iff) metis
qed

subsection \<open>Word start times are not read\<close>

text \<open>
  Claim C10. Two word sequences of the same length whose words agree pairwise in text
  and end time give the same segments (starts, ends and texts) for the same clip
  duration: the start times of the words have no influence.
\<close>

theorem start_times_ignored:
  assumes "length ws = length ws'"
    and "\<forall>i < length ws. w_end (ws ! i) = w_end (ws' ! i) \<and> w_text (ws ! i) = w_text (ws' ! i)"
  shows "caption_clips ws d = caption_clips ws' d \<and>
         add_captions_to_video ws d = add_captions_to_video ws' d"
proof -
  have "map w_end ws = map w_end ws'" "map w_text ws = map w_text ws'"
    using assms by (simp_all add: list_eq_iff_nth_eq)
  with assms(1) have "caption_loop ws initial_state = caption_loop ws' initial_state"
    by (rule caption_loop_ignores_start)
  then show ?thesis
    using assms(1) by (simp add: caption_clips_def add_captions_to_video_def)
qed

theorem start_times_ignored_witness:
  "length hi_there_friend = length hi_there_friend_shifted \<and>
   map w_start hi_there_friend \<noteq> map w_start hi_there_friend_shifted \<and>
   caption_clips hi_there_friend_shifted 5 =
     [\<lparr>seg_start = 0, seg_end = 3, seg_text = ''Hi there friend.''\<rparr>]"
proof -
  have len: "length hi_there_friend = length hi_there_friend_shifted"
    by (simp add: hi_there_friend_def hi_there_friend_shifted_def)
  have same: "\<forall>i < length hi_there_friend.
      w_end (hi_there_friend ! i) = w_end (hi_there_friend_shifted ! i) \<and>
      w_text (hi_there_friend ! i) = w_text (hi_there_friend_shifted ! i)"
    by (auto simp add: hi_there_friend_def hi_there_friend_shifted_def less_Suc_eq)
  have "caption_clips hi_there_friend 5 = caption_clips hi_there_friend_shifted 5"
    using start_times_ignored [OF len same, of 5] by simp
  then show ?thesis
    using len by (simp add: hi_there_friend_clips)
      (simp add: hi_there_friend_def hi_there_friend_shifted_def)
qed

section \<open>Properties of the subtitle export\<close>
































section \<open>Properties of the job\<close>

subsection \<open>Writing with retries\<close>

lemma write_loop_failures:
  "\<forall>p \<in> set ps. w p = RaisesIOError \<Longrightarrow>
     write_loop w (ps @ rest) s =
       write_loop w rest
         (s\<lparr>attempts := attempts s + length ps,
            logged := logged s @ map (\<lambda>p. Warning (p + 1)) ps,
            slept := slept s + length ps\<rparr>)"
  by (induction ps arbitrary: s) simp_all

lemma range_five_split: "k < 5 \<Longrightarrow> [0..<5] = [0..<k] @ k # [Suc k..<5]"
proof -
  assume k: "k < 5"
  then have "[0..<k + (5 - k)] = [0..<k] @ [k..<k + (5 - k)]"
    by (intro upt_add_eq_append) simp
  moreover have "[k..<5] = k # [Suc k..<5]"
    using k by (rule upt_conv_Cons)
  ultimately show ?thesis
    using k by simp
qed

lemma write_loop_k_failures:
  assumes "k < 5" and "\<forall>i < k. w i = RaisesIOError"
  shows "write_loop w [0..<5] start_state =
           write_loop w (k # [Suc k..<5])
             \<lparr>attempts = k, logged = map (\<lambda>pos. Warning (pos + 1)) [0..<k], slept = k\<rparr>"
proof -
  have fails: "\<forall>p \<in> set [0..<k]. w p = RaisesIOError"
    using assms(2) by simp
  have "write_loop w [0..<5] start_state = write_loop w ([0..<k] @ k # [Suc k..<5]) start_state"
    by (subst range_five_split [OF assms(1)]) (rule refl)
  also have "\<dots> = write_loop w (k # [Suc k..<5])
      (start_state\<lparr>attempts := attempts start_state + length [0..<k],
         logged := logged start_state @ map (\<lambda>p. Warning (p + 1)) [0..<k],
         slept := slept start_state + length [0..<k]\<rparr>)"
    using fails by (rule write_loop_failures)
  also have "start_state\<lparr>attempts := attempts start_state + length [0..<k],
         logged := logged start_state @ map (\<lambda>p. Warning (p + 1)) [0..<k],
         slept := slept start_state + length [0..<k]\<rparr> =
      \<lparr>attempts = k, logged = map (\<lambda>pos. Warning (pos + 1)) [0..<k], slept = k\<rparr>"
    by (simp add: start_state_def)
  finally show ?thesis .
qed

lemma write_loop_attempts:
  "attempts (snd (write_loop w ps s)) \<le> attempts s + length ps"
proof (induction ps arbitrary: s)
  case Nil
  show ?case by simp
next
  case (Cons p ps)
  show ?case
  proof (cases "w p")
    case RaisesIOError
    then show ?thesis
      using Cons [of "s\<lparr>attempts := attempts s + 1, logged := logged s @ [Warning (p + 1)],
               slept := slept s + 1\<rparr>"]
      by simp
  qed simp_all
qed

lemma write_loop_sleeps:
  "warnings (logged s) = slept s \<Longrightarrow>
     warnings (logged (snd (write_loop w ps s))) = slept (snd (write_loop w ps s))"
proof (induction ps arbitrary: s)
  case Nil
  then show ?case by (simp add: warnings_def)
next
  case (Cons p ps)
  show ?case
  proof (cases "w p")
    case RaisesIOError
    have "warnings (logged (s\<lparr>attempts := attempts s + 1,
        logged := logged s @ [Warning (p + 1)], slept := slept s + 1\<rparr>)) =
      slept (s\<lparr>attempts := attempts s + 1,
        logged := logged s @ [Warning (p + 1)], slept := slept s + 1\<rparr>)"
      using Cons.prems by (simp add: warnings_def)
    from Cons.IH [OF this] RaisesIOError show ?thesis by simp
  qed (use Cons.prems in simp_all)
qed

lemma save_output_trace:
  "trace (save_output w) = snd (write_loop w [0..<5] start_state)"
  by (simp add: save_output_def start_state_def split: prod.splits loop_exit.splits)

lemma save_then_written:
  assumes "k < 5" and "\<forall>i < k. w i = RaisesIOError" and "w k = Written"
  shows "save_output w = \<lparr>status_flag = True, raised = False,
           trace = \<lparr>attempts = k + 1, logged = map (\<lambda>pos. Warning (pos + 1)) [0..<k], slept = k\<rparr>\<rparr>"
  unfolding save_output_def start_state_def [symmetric] write_loop_k_failures [OF assms(1,2)]
  using assms(3) by simp

lemma save_then_other:
  assumes "k < 5" and "\<forall>i < k. w i = RaisesIOError" and "w k = RaisesOther"
  shows "save_output w = \<lparr>status_flag = False, raised = True,
           trace = \<lparr>attempts = k + 1, logged = map (\<lambda>pos. Warning (pos + 1)) [0..<k], slept = k\<rparr>\<rparr>"
  unfolding save_output_def start_state_def [symmetric] write_loop_k_failures [OF assms(1,2)]
  using assms(3) by simp

lemma save_all_failed:
  assumes "\<forall>i < 5. w i = RaisesIOError"
  shows "save_output w = \<lparr>status_flag = True, raised = False,
           trace = \<lparr>attempts = 5, logged = map (\<lambda>pos. Warning (pos + 1)) [0..<5] @ [Error], slept = 5\<rparr>\<rparr>"
proof -
  have "\<forall>p \<in> set [0..<5]. w p = RaisesIOError"
    using assms by simp
  from write_loop_failures [OF this, of "[]" start_state] show ?thesis
    by (simp add: save_output_def start_state_def)
qed

text \<open>
  Claim C5, amended. The write is attempted at most five times. Every attempt that raises
  an \<open>IOError\<close> logs one warning and sleeps one second. After exactly \<open>k < 5\<close> such
  failures and a success the job has logged the \<open>k\<close> warnings, makes no further attempt
  and ends with its status flag \<open>True\<close>. After five failures it logs one error, makes no
  further attempt, and ends with the same status flag \<open>True\<close>: no failed status exists.
  Any other exception is not retried; it leaves the job at once, the flag still \<open>False\<close>.
\<close>

theorem write_retry_policy:
  "attempts (trace (save_output w)) \<le> 5 \<and>
   warnings (logged (trace (save_output w))) = slept (trace (save_output w)) \<and>
   (k < 5 \<and> (\<forall>i < k. w i = RaisesIOError) \<and> w k = Written \<longrightarrow>
      save_output w = \<lparr>status_flag = True, raised = False,
        trace = \<lparr>attempts = k + 1, logged = map (\<lambda>pos. Warning (pos + 1)) [0..<k], slept = k\<rparr>\<rparr>) \<and>
   ((\<forall>i < 5. w i = RaisesIOError) \<longrightarrow>
      save_output w = \<lparr>status_flag = True, raised = False,
        trace = \<lparr>attempts = 5, logged = map (\<lambda>pos. Warning (pos + 1)) [0..<5] @ [Error], slept = 5\<rparr>\<rparr>) \<and>
   (k < 5 \<and> (\<forall>i < k. w i = RaisesIOError) \<and> w k = RaisesOther \<longrightarrow>
      save_output w = \<lparr>status_flag = False, raised = True,
        trace = \<lparr>attempts = k + 1, logged = map (\<lambda>pos. Warning (pos + 1)) [0..<k], slept = k\<rparr>\<rparr>)"
proof -
  have "attempts (trace (save_output w)) \<le> 5"
    using write_loop_attempts [of w "[0..<5]" start_state]
    by (simp add: save_output_trace start_state_def)
  moreover have "warnings (logged (trace (save_output w))) = slept (trace (save_output w))"
    unfolding save_output_trace
    by (rule write_loop_sleeps) (simp add: start_state_def warnings_def)
  ultimately show ?thesis
    using save_then_written [of k w] save_then_other [of k w] save_all_failed [of w] by blast
qed

text \<open>
  Claim C5 as stated, at a file system that fails all five attempts: what the job leaves
  for the scheduler, the status flag and a normal return, is what a job leaves whose
  first write succeeded. Nothing marks the job as failed.
\<close>

theorem write_retry_policy_counterexample:
  "status_flag (save_output always_fails) = status_flag (save_output writes_at_once) \<and>
   raised (save_output always_fails) = raised (save_output writes_at_once)"
  by (simp add: save_output_def always_fails_def writes_at_once_def upt_conv_Cons)

theorem write_retry_policy_witness:
  "save_output (fails_then 2 Written) = \<lparr>status_flag = True, raised = False,
      trace = \<lparr>attempts = 3, logged = [Warning 1, Warning 2], slept = 2\<rparr>\<rparr> \<and>
   save_output always_fails = \<lparr>status_flag = True, raised = False,
      trace = \<lparr>attempts = 5,
        logged = [Warning 1, Warning 2, Warning 3, Warning 4, Warning 5, Error], slept = 5\<rparr>\<rparr> \<and>
   save_output (fails_then 1 RaisesOther) = \<lparr>status_flag = False, raised = True,
      trace = \<lparr>attempts = 2, logged = [Warning 1], slept = 1\<rparr>\<rparr>"
proof -
  have a: "(2::nat) < 5 \<and> (\<forall>i < 2. fails_then 2 Written i = RaisesIOError) \<and>
      fails_then 2 Written 2 = Written"
    by (simp add: fails_then_def)
  have b: "\<forall>i < 5. always_fails i = RaisesIOError"
    by (simp add: always_fails_def)
  have c: "(1::nat) < 5 \<and> (\<forall>i < 1. fails_then 1 RaisesOther i = RaisesIOError) \<and>
      fails_then 1 RaisesOther 1 = RaisesOther"
    by (simp add: fails_then_def)
  show ?thesis
    using write_retry_policy [of "fails_then 2 Written" 2] a
      write_retry_policy [of always_fails 0] b
      write_retry_policy [of "fails_then 1 RaisesOther" 1] c
    by (simp add: upt_conv_Cons)
qed

subsection \<open>The trim before writing\<close>

text \<open>
  Claim C8 at two clips. One of 1.5 seconds at 25 frames per second holds 37.5 frames:
  rounding down to whole frames gives 37 / 25 seconds, the code keeps 1.5. One of 10
  seconds at 30 frames per second holds 300 whole frames already, the code cuts it to
  9.9. The code rounds the duration down to a multiple of \<open>fps / 100\<close> seconds, not of
  \<open>1 / fps\<close>.
\<close>

theorem end_time_not_whole_frames:
  "end_time (3/2) 25 = Inr (3/2) \<and> whole_frames (3/2) 25 = 37/25 \<and>
   end_time 10 30 = Inr (99/10) \<and> whole_frames 10 30 = 10"
  by (simp add: end_time_def py_round2_def round_half_even_def floordiv_def whole_frames_def)

section \<open>Properties of the scheduler\<close>

lemma sched_inv_initial: "sched_inv C names (initial names)"
  by (simp add: sched_inv_def counts_ok_def dicts_ok_def pc_ok_def initial_def del: map_of_eq_Some_iff)

lemma length_delete_key:
  "distinct (map fst al) \<Longrightarrow> k \<in> fst ` set al \<Longrightarrow> Suc (length (AList.delete k al)) = length al"
proof -
  assume d: "distinct (map fst al)" and k: "k \<in> fst ` set al"
  have "length (AList.delete k al) = length (removeAll k (map fst al))"
    by (simp add: delete_keys [symmetric])
  also have "\<dots> = length (remove1 k (map fst al))"
    using d by (simp add: distinct_remove1_removeAll)
  also have "\<dots> = length al - 1"
    using k by (simp add: length_remove1)
  finally show ?thesis
    using k by (cases al) auto
qed

lemma keys_delete:
  "fst ` set (AList.delete k al) = fst ` set al - {k}"
  by (auto simp add: AList.delete_eq)

lemma map_of_in_keys: "map_of al k = Some v \<Longrightarrow> k \<in> fst ` set al"
  by (metis domI dom_map_of_conv_image_fst)

lemma keys_map_of: "k \<in> fst ` set al \<Longrightarrow> \<exists>v. map_of al k = Some v"
  by (metis domD dom_map_of_conv_image_fst)

lemma inv_loop_test:
  assumes "sched_inv C names s" and "pc s = LoopTest"
  shows "sched_inv C names
           (s\<lparr>pc := (if length (video_queue s) \<noteq> 0 \<or> length (processes s) \<noteq> 0
                      then SpawnTest else Exited)\<rparr>)"
  using assms by (auto simp add: sched_inv_def counts_ok_def dicts_ok_def pc_ok_def simp del: map_of_eq_Some_iff)

lemma inv_set_pc:
  assumes "sched_inv C names s" and "pc_ok (s\<lparr>pc := c\<rparr>)"
  shows "sched_inv C names (s\<lparr>pc := c\<rparr>)"
  using assms by (auto simp add: sched_inv_def counts_ok_def dicts_ok_def simp del: map_of_eq_Some_iff)

lemma length_update_fresh:
  "k \<notin> fst ` set al \<Longrightarrow> length (AList.update k v al) = Suc (length al)"
  by (induction al) auto

lemma inv_spawn:
  assumes inv: "sched_inv C names s" and room: "num_active_processes s < int C"
    and q: "length (video_queue s) > 0" and sp: "spawn new_pid s = Some s'"
  shows "sched_inv C names s'"
proof -
  from sp have fresh: "new_pid \<notin> fst ` set (processes s)"
    and s': "s' = s\<lparr>video_queue := tl (video_queue s),
                   processes := AList.update new_pid (hd (video_queue s)) (processes s),
                   num_active_processes := num_active_processes s + 1,
                   pc := ReapStart\<rparr>"
    by (auto simp add: spawn_def split: if_splits)
  have len: "length (AList.update new_pid (hd (video_queue s)) (processes s)) =
      Suc (length (processes s))"
    using fresh by (rule length_update_fresh)
  have keys: "fst ` set (AList.update new_pid (hd (video_queue s)) (processes s)) =
      insert new_pid (fst ` set (processes s))"
    by (simp add: dom_update)
  have tl: "Suc (length (tl (video_queue s))) = length (video_queue s)"
    using q by (cases "video_queue s") simp_all
  have "counts_ok C names s'"
    using inv room tl unfolding s' sched_inv_def counts_ok_def by (simp add: len) linarith
  moreover have "dicts_ok s'"
    using inv unfolding s' sched_inv_def dicts_ok_def
    by (auto simp add: keys distinct_update simp del: map_of_eq_Some_iff)
  moreover have "pc_ok s'"
    unfolding s' pc_ok_def by simp
  ultimately show ?thesis by (simp add: sched_inv_def)
qed

lemma inv_reap_start:
  assumes "sched_inv C names s"
  shows "sched_inv C names (s\<lparr>pc := ReapLoop (processes_status_dict s)\<rparr>)"
proof (rule inv_set_pc [OF assms])
  have "distinct (map fst (processes_status_dict s))"
    using assms by (simp add: sched_inv_def dicts_ok_def del: map_of_eq_Some_iff)
  then show "pc_ok (s\<lparr>pc := ReapLoop (processes_status_dict s)\<rparr>)"
    by (auto simp add: pc_ok_def simp del: map_of_eq_Some_iff)
qed

lemma inv_skip:
  assumes "sched_inv C names s" and "pc s = ReapLoop ((p, completed) # rest)"
  shows "sched_inv C names (s\<lparr>pc := ReapLoop rest\<rparr>)"
proof (rule inv_set_pc [OF assms(1)])
  from assms have "pc_ok s" by (simp add: sched_inv_def)
  with assms(2) show "pc_ok (s\<lparr>pc := ReapLoop rest\<rparr>)"
    by (auto simp add: pc_ok_def simp del: map_of_eq_Some_iff)
qed

lemma inv_reap:
  assumes inv: "sched_inv C names s" and pc: "pc s = ReapLoop ((p, True) # rest)"
  shows "sched_inv C names (reap p rest s)"
proof -
  from inv have c: "counts_ok C names s" and d: "dicts_ok s" and ok: "pc_ok s"
    by (simp_all add: sched_inv_def)
  from ok pc have flag: "map_of (processes_status_dict s) p = Some True"
    and dist: "p \<notin> fst ` set rest" "distinct (map fst rest)"
    and rest: "\<forall>(q, completed) \<in> set rest.
        completed \<longrightarrow> map_of (processes_status_dict s) q = Some True"
    by (auto simp add: pc_ok_def simp del: map_of_eq_Some_iff)
  from flag have pst: "p \<in> fst ` set (processes_status_dict s)"
    by (rule map_of_in_keys)
  with d have ppr: "p \<in> fst ` set (processes s)"
    by (auto simp add: dicts_ok_def simp del: map_of_eq_Some_iff)
  then obtain fname where fl: "map_of (processes s) p = Some fname"
    using keys_map_of by fastforce
  define s' where "s' = s\<lparr>processes := AList.delete p (processes s),
                 processes_status_dict := AList.delete p (processes_status_dict s),
                 num_active_processes := num_active_processes s - 1,
                 joined := joined s @ [fname],
                 pc := ReapLoop rest\<rparr>"
  have eq: "reap p rest s = s'"
    using fl pst by (simp add: reap_def s'_def)
  have len: "Suc (length (AList.delete p (processes s))) = length (processes s)"
    using d ppr by (simp add: dicts_ok_def length_delete_key del: map_of_eq_Some_iff)
  have "counts_ok C names s'"
    using c len unfolding s'_def counts_ok_def by simp
  moreover have "p \<notin> set (crashed s)"
    using d flag by (auto simp add: dicts_ok_def simp del: map_of_eq_Some_iff)
  then have "dicts_ok s'"
    using d unfolding s'_def dicts_ok_def
    by (auto simp add: keys_delete distinct_delete delete_conv' simp del: map_of_eq_Some_iff)
  moreover have "pc_ok s'"
    using dist rest unfolding s'_def pc_ok_def
    by (auto simp add: delete_conv' rev_image_eqI simp del: map_of_eq_Some_iff)
  ultimately show ?thesis
    by (simp add: eq sched_inv_def)
qed

lemma inv_sched_step:
  assumes inv: "sched_inv C names s" and step: "sched_step C new_pid s = Some s'"
  shows "sched_inv C names s'"
proof (cases "pc s")
  case LoopTest
  with step inv_loop_test [OF inv] show ?thesis
    by (auto simp add: sched_step_def)
next
  case SpawnTest
  show ?thesis
  proof (cases "num_active_processes s < int C \<and> length (video_queue s) > 0")
    case True
    with step SpawnTest have "spawn new_pid s = Some s'"
      by (simp add: sched_step_def)
    with inv True show ?thesis by (auto intro: inv_spawn)
  next
    case False
    with step SpawnTest have "s' = s\<lparr>pc := ReapStart\<rparr>"
      by (auto simp add: sched_step_def)
    then show ?thesis
      using inv_set_pc [OF inv, of ReapStart] by (simp add: pc_ok_def del: map_of_eq_Some_iff)
  qed
next
  case ReapStart
  with step inv_reap_start [OF inv] show ?thesis
    by (auto simp add: sched_step_def)
next
  case (ReapLoop items)
  show ?thesis
  proof (cases items)
    case Nil
    with step ReapLoop have "s' = s\<lparr>pc := LoopTest\<rparr>"
      by (auto simp add: sched_step_def)
    then show ?thesis
      using inv_set_pc [OF inv, of LoopTest] by (simp add: pc_ok_def del: map_of_eq_Some_iff)
  next
    case (Cons item rest)
    obtain p completed where item: "item = (p, completed)" by (cases item)
    show ?thesis
    proof (cases completed)
      case True
      with step ReapLoop Cons item have "s' = reap p rest s"
        by (auto simp add: sched_step_def)
      with inv ReapLoop Cons item True show ?thesis
        by (simp add: inv_reap)
    next
      case False
      with step ReapLoop Cons item have "s' = s\<lparr>pc := ReapLoop rest\<rparr>"
        by (auto simp add: sched_step_def)
      with inv ReapLoop Cons item show ?thesis
        by (simp add: inv_skip)
    qed
  qed
next
  case Exited
  with step show ?thesis by (simp add: sched_step_def)
next
  case RaisedKeyError
  with step show ?thesis by (simp add: sched_step_def)
qed

lemma inv_worker_flag:
  assumes inv: "sched_inv C names s" and run: "running p s"
    and old: "map_of (processes_status_dict s) p \<noteq> Some True"
  shows "sched_inv C names
           (s\<lparr>processes_status_dict := AList.update p b (processes_status_dict s)\<rparr>)"
proof -
  let ?s' = "s\<lparr>processes_status_dict := AList.update p b (processes_status_dict s)\<rparr>"
  from inv have c: "counts_ok C names s" and d: "dicts_ok s" and ok: "pc_ok s"
    by (simp_all add: sched_inv_def)
  have "counts_ok C names ?s'"
    using c by (simp add: counts_ok_def)
  moreover have "dicts_ok ?s'"
    using d run unfolding dicts_ok_def running_def
    by (auto simp add: dom_update distinct_update update_conv' simp del: map_of_eq_Some_iff)
  moreover have "pc_ok ?s'"
    using ok old unfolding pc_ok_def
    by (auto simp add: update_conv' split: pc.splits simp del: map_of_eq_Some_iff)
  ultimately show ?thesis by (simp add: sched_inv_def)
qed

lemma inv_worker_crash:
  assumes inv: "sched_inv C names s" and run: "running p s"
    and old: "map_of (processes_status_dict s) p \<noteq> Some True"
  shows "sched_inv C names (s\<lparr>crashed := p # crashed s\<rparr>)"
  using assms
  by (auto simp add: sched_inv_def counts_ok_def dicts_ok_def pc_ok_def running_def
      split: pc.splits simp del: map_of_eq_Some_iff)

lemma inv_fire:
  assumes inv: "sched_inv C names s" and f: "fire C e s = Some s'"
  shows "sched_inv C names s'"
proof (cases e)
  case (Sched new_pid)
  with f inv show ?thesis by (auto simp add: fire_def intro: inv_sched_step)
next
  case (WorkerBegin p)
  with f inv_worker_flag [OF inv, of p False] show ?thesis
    by (auto simp add: fire_def split: if_splits)
next
  case (WorkerEnd p)
  with f inv_worker_flag [OF inv, of p True] show ?thesis
    by (auto simp add: fire_def split: if_splits)
next
  case (WorkerCrash p)
  with f inv_worker_crash [OF inv, of p] show ?thesis
    by (auto simp add: fire_def split: if_splits)
qed

lemma inv_run: "sched_inv C names s \<Longrightarrow> run C es s = Some s' \<Longrightarrow> sched_inv C names s'"
proof (induction es arbitrary: s)
  case Nil
  then show ?case by simp
next
  case (Cons e es)
  then show ?case by (auto split: option.splits dest: inv_fire)
qed

lemma run_append:
  "run C (es @ es') s = (case run C es s of None \<Rightarrow> None | Some s1 \<Rightarrow> run C es' s1)"
  by (induction es arbitrary: s) (auto split: option.splits)

lemma crashed_sched_step: "sched_step C new_pid s = Some s' \<Longrightarrow> crashed s' = crashed s"
  by (auto simp add: sched_step_def spawn_def reap_def
      split: pc.splits list.splits if_splits option.splits)

lemma crashed_fire: "fire C e s = Some s' \<Longrightarrow> set (crashed s) \<subseteq> set (crashed s')"
  by (cases e) (auto simp add: fire_def crashed_sched_step split: if_splits)

lemma crashed_run: "run C es s = Some s' \<Longrightarrow> set (crashed s) \<subseteq> set (crashed s')"
proof (induction es arbitrary: s)
  case Nil
  then show ?case by simp
next
  case (Cons e es)
  then show ?case by (auto split: option.splits dest: crashed_fire)
qed

lemma loop_test_step:
  assumes "counts_ok C names s" and "pc s = LoopTest"
  shows "\<exists>s'. sched_step C new_pid s = Some s' \<and>
           (pc s' = Exited \<longleftrightarrow> length (joined s) = length names) \<and>
           (pc s' = Exited \<longleftrightarrow> video_queue s = [] \<and> processes s = [])"
  using assms by (auto simp add: sched_step_def counts_ok_def)

text \<open>
  Claim C2. In every state that a run of the scheduler reaches from a queue of the input
  names, whatever the cap and however the workers interleave, the number of processes
  started and not yet removed is at most the cap (and is what the counter says), and no
  \<open>KeyError\<close> stops the loop. The loop has been left only with the queue empty, no
  process tracked, and every input file joined; and at the \<open>while\<close> test the loop is left
  exactly when every input file has been joined, which is exactly when the queue is empty
  and no process is tracked.
\<close>

theorem running_jobs_bounded:
  assumes "run C es (initial names) = Some s"
  shows "length (processes s) \<le> C \<and> num_active_processes s = int (length (processes s)) \<and>
         pc s \<noteq> RaisedKeyError \<and>
         (pc s = Exited \<longrightarrow>
            video_queue s = [] \<and> processes s = [] \<and> length (joined s) = length names) \<and>
         (pc s = LoopTest \<longrightarrow>
            (\<exists>s'. sched_step C new_pid s = Some s' \<and>
                  (pc s' = Exited \<longleftrightarrow> length (joined s) = length names) \<and>
                  (pc s' = Exited \<longleftrightarrow> video_queue s = [] \<and> processes s = [])))"
proof -
  have inv: "sched_inv C names s"
    using sched_inv_initial assms by (rule inv_run)
  then have c: "counts_ok C names s" and ok: "pc_ok s"
    by (simp_all add: sched_inv_def)
  from c have "length (processes s) \<le> C" "num_active_processes s = int (length (processes s))"
    by (simp_all add: counts_ok_def)
  moreover from ok have "pc s \<noteq> RaisedKeyError"
    by (auto simp add: pc_ok_def)
  moreover from ok c have "pc s = Exited \<longrightarrow>
      video_queue s = [] \<and> processes s = [] \<and> length (joined s) = length names"
    by (auto simp add: pc_ok_def counts_ok_def)
  moreover have "pc s = LoopTest \<longrightarrow>
            (\<exists>s'. sched_step C new_pid s = Some s' \<and>
                  (pc s' = Exited \<longleftrightarrow> length (joined s) = length names) \<and>
                  (pc s' = Exited \<longleftrightarrow> video_queue s = [] \<and> processes s = []))"
    using loop_test_step [OF c] by blast
  ultimately show ?thesis by blast
qed

lemma good_run_result: "run 1 good_run (initial [''a.mp4'', ''b.mp4'']) = Some all_done"
  by (simp add: good_run_def initial_def all_done_def fire_def sched_step_def spawn_def reap_def
      running_def)

lemma drained_result: "run 1 (butlast good_run) (initial [''a.mp4'', ''b.mp4'']) = Some drained"
  by (simp add: good_run_def initial_def drained_def fire_def sched_step_def spawn_def reap_def
      running_def)

theorem running_jobs_bounded_witness:
  "run 1 good_run (initial [''a.mp4'', ''b.mp4'']) = Some all_done \<and> pc all_done = Exited \<and>
   length (joined all_done) = length [''a.mp4'', ''b.mp4''] \<and> length (processes all_done) \<le> 1 \<and>
   run 1 (butlast good_run) (initial [''a.mp4'', ''b.mp4'']) = Some drained \<and>
   pc drained = LoopTest \<and> (\<exists>s'. sched_step 1 3 drained = Some s' \<and> pc s' = Exited)"
proof -
  have ex: "pc all_done = Exited"
    by (simp add: all_done_def)
  have lt: "pc drained = LoopTest" and all: "length (joined drained) = length [''a.mp4'', ''b.mp4'']"
    by (simp_all add: drained_def)
  have "\<exists>s'. sched_step 1 3 drained = Some s' \<and> pc s' = Exited"
    using running_jobs_bounded [OF drained_result, of 3] lt all by blast
  then show ?thesis
    using running_jobs_bounded [OF good_run_result] good_run_result drained_result ex lt
    by simp
qed

text \<open>
  Claim C6, amended. When a worker dies before it sets its flag, nothing tells the
  scheduler: in every state reached afterwards the worker is still tracked, its flag is
  still not \<open>True\<close>, its slot is still counted, and the main loop has not been left. The
  loop never reaches its termination condition.
\<close>

theorem crashed_worker_blocks_exit:
  assumes "run C es (initial names) = Some s" and "p \<in> set (crashed s)"
    and "run C es' s = Some s'"
  shows "p \<in> set (crashed s') \<and> p \<in> fst ` set (processes s') \<and>
         map_of (processes_status_dict s') p \<noteq> Some True \<and>
         0 < num_active_processes s' \<and> pc s' \<noteq> Exited"
proof -
  have "run C (es @ es') (initial names) = Some s'"
    using assms(1,3) by (simp add: run_append)
  with sched_inv_initial have inv: "sched_inv C names s'"
    by (rule inv_run)
  then have c: "counts_ok C names s'" and d: "dicts_ok s'" and ok: "pc_ok s'"
    by (simp_all add: sched_inv_def)
  have p: "p \<in> set (crashed s')"
    using crashed_run [OF assms(3)] assms(2) by blast
  with d have tracked: "p \<in> fst ` set (processes s')"
    and flag: "map_of (processes_status_dict s') p \<noteq> Some True"
    by (auto simp add: dicts_ok_def simp del: map_of_eq_Some_iff)
  from tracked have ne: "processes s' \<noteq> []"
    by auto
  with c have "0 < num_active_processes s'"
    by (simp add: counts_ok_def)
  moreover from ne ok have "pc s' \<noteq> Exited"
    by (auto simp add: pc_ok_def)
  ultimately show ?thesis
    using p tracked flag by blast
qed

lemma crash_run_result: "run 1 crash_run (initial [''a.mp4'']) = Some stuck"
  by (simp add: crash_run_def initial_def stuck_def fire_def sched_step_def spawn_def reap_def
      running_def)

lemma loop_pass_stuck: "run 1 loop_pass stuck = Some stuck"
  by (simp add: loop_pass_def stuck_def fire_def sched_step_def spawn_def reap_def running_def)

text \<open>
  Claim C6 as stated, at one file and one slot, the worker dying after line 377: the main
  loop comes back to its \<open>while\<close> test with the dead worker tracked and its flag
  \<open>False\<close>, and a further pass of the loop ends in the very same state. No failed status
  appears, the slot is not reclaimed, the loop spins.
\<close>

theorem crashed_worker_counterexample:
  "run 1 crash_run (initial [''a.mp4'']) = Some stuck \<and> run 1 loop_pass stuck = Some stuck \<and>
   pc stuck = LoopTest \<and> processes stuck = [(7, ''a.mp4'')] \<and>
   processes_status_dict stuck = [(7, False)]"
  using crash_run_result loop_pass_stuck by (simp add: stuck_def)

theorem crashed_worker_blocks_exit_witness:
  "run 1 crash_run (initial [''a.mp4'']) = Some stuck \<and> 7 \<in> set (crashed stuck) \<and>
   run 1 (loop_pass @ loop_pass) stuck = Some stuck \<and> pc stuck \<noteq> Exited \<and>
   0 < num_active_processes stuck"
proof -
  have c: "7 \<in> set (crashed stuck)"
    by (simp add: stuck_def)
  have r: "run 1 (loop_pass @ loop_pass) stuck = Some stuck"
    using loop_pass_stuck by (simp add: run_append)
  from crashed_worker_blocks_exit [OF crash_run_result c r] show ?thesis
    using crash_run_result c r by simp
qed

end
